theory Spec2Isabelle
  imports Main "HOL-Library.Word" "HOL-Library.Multiset"
begin

section \<open>TicketVault: the contract's data model\<close>

text \<open>
  The contract \<^verbatim>\<open>TicketVault\<close> (Solidity ^0.8.24) keeps three state variables:
  \<^verbatim>\<open>_tickets\<close>, \<^verbatim>\<open>_ticketCount\<close> and \<^verbatim>\<open>_ownerTickets\<close>. Solidity mappings are total:
  a key that was never written reads as the zero value of the value type. Arithmetic is
  checked (a \<^verbatim>\<open>++\<close> at the maximum reverts with a panic), and a reverting call leaves no
  trace in storage, in the platform's state or in the event log. A storage array is a
  list: \<^verbatim>\<open>push\<close> appends, \<^verbatim>\<open>pop\<close> drops the last element. Array lengths and the loop
  counter of \<^verbatim>\<open>transferTicket\<close> are natural numbers; an index is only ever read below the
  length.
\<close>

type_synonym uint256 = "256 word"
type_synonym address = "160 word"
type_synonym bytes = "8 word list"
type_synonym externalEuint32 = "256 word"

text \<open>
  \<^verbatim>\<open>euint32\<close> and \<^verbatim>\<open>ebool\<close> are opaque handles in the addressing scheme of the encryption
  platform; handle \<open>0\<close> is the uninitialised handle that unwritten storage reads as.
\<close>

type_synonym handle = nat

record Ticket =
  eventName :: string
  venue :: string
  date :: string
  encryptedSeatNumber :: handle
  isLocked :: handle
  owner :: address
  exists :: bool

datatype event =
    TicketCreated uint256 address string
  | TicketLockStatusChanged uint256 address
  | TicketTransferred uint256 address address

subsection \<open>The encryption platform\<close>

datatype plaintext = PBool bool | PUint32 "32 word"

datatype grantee = Registry | Principal address

text \<open>
  Modelled from the spec: the Capability Gateway (the library \<^verbatim>\<open>@fhevm/solidity\<close> behind
  \<^verbatim>\<open>FHE.fromExternal\<close>, \<^verbatim>\<open>FHE.asEbool\<close>, \<^verbatim>\<open>FHE.allow\<close> and \<^verbatim>\<open>FHE.allowThis\<close>), which is
  not among the sources. It registers handles, remembers what each one encrypts, and
  records which principal may decrypt which handle. The registry itself never sees a
  plaintext: \<open>cleartext\<close> is what the platform would decrypt a handle to.
\<close>

record gateway =
  nextHandle :: handle
  cleartext :: "handle \<rightharpoonup> plaintext"
  grants :: "(handle \<times> grantee) set"

text \<open>
  Modelled from the spec: the platform's check of a sealed input. It is given the
  ciphertext, the proof and the submitting principal, and answers with the encrypted
  value when the proof verifies and with \<open>None\<close> (the failure \<^verbatim>\<open>InvalidProof\<close>) otherwise.
\<close>

type_synonym verifier = "externalEuint32 \<Rightarrow> bytes \<Rightarrow> address \<Rightarrow> 32 word option"

text \<open>Modelled from the spec: the platform before any handle was issued.\<close>

definition initGateway :: gateway where
  "initGateway = \<lparr>nextHandle = 1, cleartext = Map.empty, grants = {}\<rparr>"

text \<open>Modelled from the spec: \<^verbatim>\<open>ingest(ciphertext, proof, context) -> Handle\<close>.\<close>

definition fromExternal ::
  "verifier \<Rightarrow> externalEuint32 \<Rightarrow> bytes \<Rightarrow> address \<Rightarrow> gateway \<Rightarrow> (handle \<times> gateway) option" where
  "fromExternal V ct proof sender g =
     (case V ct proof sender of
        None \<Rightarrow> None
      | Some v \<Rightarrow>
          Some (nextHandle g,
                g\<lparr>nextHandle := nextHandle g + 1,
                  cleartext := (cleartext g)(nextHandle g \<mapsto> PUint32 v)\<rparr>))"

text \<open>
  Modelled from the spec: \<^verbatim>\<open>materializeBool(value) -> Handle\<close>, a fresh handle for a chosen
  plaintext boolean, implicitly granted to the registry.
\<close>

definition asEbool :: "bool \<Rightarrow> gateway \<Rightarrow> handle \<times> gateway" where
  "asEbool b g =
     (nextHandle g,
      g\<lparr>nextHandle := nextHandle g + 1,
        cleartext := (cleartext g)(nextHandle g \<mapsto> PBool b),
        grants := insert (nextHandle g, Registry) (grants g)\<rparr>)"

text \<open>Modelled from the spec: \<^verbatim>\<open>grant(handle, principal)\<close>; granting twice is a no-op.\<close>

definition allow :: "handle \<Rightarrow> address \<Rightarrow> gateway \<Rightarrow> gateway" where
  "allow h a g = g\<lparr>grants := insert (h, Principal a) (grants g)\<rparr>"

text \<open>Modelled from the spec: the same grant, to the registry itself.\<close>

definition allowThis :: "handle \<Rightarrow> gateway \<Rightarrow> gateway" where
  "allowThis h g = g\<lparr>grants := insert (h, Registry) (grants g)\<rparr>"

subsection \<open>Contract state and failures\<close>

record state =
  tickets :: "uint256 \<Rightarrow> Ticket"
  ticketCount :: uint256
  ownerTickets :: "address \<Rightarrow> uint256 list"
  fhe :: gateway
  events :: "event list"

definition emptyTicket :: Ticket where
  "emptyTicket =
     \<lparr>eventName = [], venue = [], date = [], encryptedSeatNumber = 0, isLocked = 0,
      owner = 0, exists = False\<rparr>"

definition initState :: state where
  "initState =
     \<lparr>tickets = (\<lambda>_. emptyTicket), ticketCount = 0, ownerTickets = (\<lambda>_. []),
      fhe = initGateway, events = []\<rparr>"

text \<open>
  The ways a call reverts: the four \<^verbatim>\<open>require\<close> messages of the contract, a proof the
  platform rejects, and the arithmetic panic of checked \<^verbatim>\<open>_ticketCount++\<close>.
\<close>

datatype error =
    TicketDoesNotExist
  | NotTicketOwner
  | InvalidNewOwner
  | CannotTransferToSelf
  | ProofRejected
  | ArithmeticPanic

datatype errorKind = NotFound | NotAuthorized | InvalidInput | InvalidProof | Panic

fun kindOf :: "error \<Rightarrow> errorKind" where
  "kindOf TicketDoesNotExist = NotFound"
| "kindOf NotTicketOwner = NotAuthorized"
| "kindOf InvalidNewOwner = InvalidInput"
| "kindOf CannotTransferToSelf = InvalidInput"
| "kindOf ProofRejected = InvalidProof"
| "kindOf ArithmeticPanic = Panic"

section \<open>The contract's functions\<close>

subsection \<open>Views\<close>

definition getTicketCount :: "state \<Rightarrow> uint256" where
  "getTicketCount s = ticketCount s"

definition getOwnerTickets :: "address \<Rightarrow> state \<Rightarrow> uint256 list" where
  "getOwnerTickets who s = ownerTickets s who"

definition getTicketMetadata ::
  "uint256 \<Rightarrow> state \<Rightarrow> string \<times> string \<times> string \<times> address \<times> bool" where
  "getTicketMetadata ticketId s =
     (let ticket = tickets s ticketId
      in (eventName ticket, venue ticket, date ticket, owner ticket, exists ticket))"

definition getEncryptedSeatNumber :: "address \<Rightarrow> uint256 \<Rightarrow> state \<Rightarrow> error + handle" where
  "getEncryptedSeatNumber sender ticketId s =
     (if \<not> exists (tickets s ticketId) then Inl TicketDoesNotExist
      else if owner (tickets s ticketId) \<noteq> sender then Inl NotTicketOwner
      else Inr (encryptedSeatNumber (tickets s ticketId)))"

definition getEncryptedLockStatus :: "address \<Rightarrow> uint256 \<Rightarrow> state \<Rightarrow> error + handle" where
  "getEncryptedLockStatus sender ticketId s =
     (if \<not> exists (tickets s ticketId) then Inl TicketDoesNotExist
      else if owner (tickets s ticketId) \<noteq> sender then Inl NotTicketOwner
      else Inr (isLocked (tickets s ticketId)))"

subsection \<open>createTicket\<close>

definition createTicket ::
  "verifier \<Rightarrow> address \<Rightarrow> string \<Rightarrow> string \<Rightarrow> string \<Rightarrow> externalEuint32 \<Rightarrow> bytes \<Rightarrow> state
     \<Rightarrow> error + (uint256 \<times> state)" where
  "createTicket V sender eventName' venue' date' encryptedSeat seatProof s =
     (let ticketId = ticketCount s
      in if ticketCount s = - 1 then Inl ArithmeticPanic
         else
           let s1 = s\<lparr>ticketCount := ticketCount s + 1\<rparr>
           in case fromExternal V encryptedSeat seatProof sender (fhe s1) of
                None \<Rightarrow> Inl ProofRejected
              | Some (seatNumber, g1) \<Rightarrow>
                  let (locked, g2) = asEbool True g1;
                      s2 = s1\<lparr>tickets := (tickets s1)(ticketId :=
                                 \<lparr>eventName = eventName', venue = venue', date = date',
                                  encryptedSeatNumber = seatNumber, isLocked = locked,
                                  owner = sender, exists = True\<rparr>)\<rparr>;
                      s3 = s2\<lparr>ownerTickets := (ownerTickets s2)(sender :=
                                 ownerTickets s2 sender @ [ticketId])\<rparr>;
                      g3 = allowThis seatNumber g2;
                      g4 = allow seatNumber sender g3;
                      g5 = allowThis locked g4;
                      g6 = allow locked sender g5
                  in Inr (ticketId,
                          s3\<lparr>fhe := g6,
                             events := events s3 @ [TicketCreated ticketId sender eventName']\<rparr>))"

subsection \<open>unlockTicket and lockTicket\<close>

definition unlockTicket :: "address \<Rightarrow> uint256 \<Rightarrow> state \<Rightarrow> error + state" where
  "unlockTicket sender ticketId s =
     (if \<not> exists (tickets s ticketId) then Inl TicketDoesNotExist
      else if owner (tickets s ticketId) \<noteq> sender then Inl NotTicketOwner
      else
        let (unlocked, g1) = asEbool False (fhe s);
            s1 = s\<lparr>tickets := (tickets s)(ticketId := (tickets s ticketId)\<lparr>isLocked := unlocked\<rparr>)\<rparr>;
            g2 = allowThis unlocked g1;
            g3 = allow unlocked sender g2
        in Inr (s1\<lparr>fhe := g3,
                   events := events s1 @ [TicketLockStatusChanged ticketId sender]\<rparr>))"

definition lockTicket :: "address \<Rightarrow> uint256 \<Rightarrow> state \<Rightarrow> error + state" where
  "lockTicket sender ticketId s =
     (if \<not> exists (tickets s ticketId) then Inl TicketDoesNotExist
      else if owner (tickets s ticketId) \<noteq> sender then Inl NotTicketOwner
      else
        let (locked, g1) = asEbool True (fhe s);
            s1 = s\<lparr>tickets := (tickets s)(ticketId := (tickets s ticketId)\<lparr>isLocked := locked\<rparr>)\<rparr>;
            g2 = allowThis locked g1;
            g3 = allow locked sender g2
        in Inr (s1\<lparr>fhe := g3,
                   events := events s1 @ [TicketLockStatusChanged ticketId sender]\<rparr>))"

subsection \<open>transferTicket\<close>

text \<open>
  The loop that takes \<^verbatim>\<open>ticketId\<close> out of the previous owner's array: the first slot that
  holds it is overwritten with the last element, the array is popped, and the loop
  breaks. \<open>i\<close> is the loop counter; an array without the id is left as it is.
\<close>

function removeLoop :: "uint256 \<Rightarrow> nat \<Rightarrow> uint256 list \<Rightarrow> uint256 list" where
  "removeLoop ticketId i prevOwnerTickets =
     (if i < length prevOwnerTickets then
        (if prevOwnerTickets ! i = ticketId
         then butlast (prevOwnerTickets[i := prevOwnerTickets ! (length prevOwnerTickets - 1)])
         else removeLoop ticketId (i + 1) prevOwnerTickets)
      else prevOwnerTickets)"
  by pat_completeness auto
termination
  by (relation "measure (\<lambda>(ticketId, i, prevOwnerTickets). length prevOwnerTickets - i)") auto

declare removeLoop.simps [simp del]

definition transferTicket :: "address \<Rightarrow> uint256 \<Rightarrow> address \<Rightarrow> state \<Rightarrow> error + state" where
  "transferTicket sender ticketId newOwner s =
     (if \<not> exists (tickets s ticketId) then Inl TicketDoesNotExist
      else if owner (tickets s ticketId) \<noteq> sender then Inl NotTicketOwner
      else if newOwner = 0 then Inl InvalidNewOwner
      else if newOwner = sender then Inl CannotTransferToSelf
      else
        let previousOwner = owner (tickets s ticketId);
            s1 = s\<lparr>tickets := (tickets s)(ticketId := (tickets s ticketId)\<lparr>owner := newOwner\<rparr>)\<rparr>;
            s2 = s1\<lparr>ownerTickets := (ownerTickets s1)(previousOwner :=
                       removeLoop ticketId 0 (ownerTickets s1 previousOwner))\<rparr>;
            s3 = s2\<lparr>ownerTickets := (ownerTickets s2)(newOwner :=
                       ownerTickets s2 newOwner @ [ticketId])\<rparr>;
            g1 = allow (encryptedSeatNumber (tickets s3 ticketId)) newOwner (fhe s3);
            g2 = allow (isLocked (tickets s3 ticketId)) newOwner g1
        in Inr (s3\<lparr>fhe := g2,
                   events := events s3 @ [TicketTransferred ticketId previousOwner newOwner]\<rparr>))"

subsection \<open>Calls, with the EVM's revert\<close>

datatype call =
    GetTicketCount
  | GetOwnerTickets address
  | GetTicketMetadata uint256
  | GetEncryptedSeatNumber uint256
  | GetEncryptedLockStatus uint256
  | CreateTicket string string string externalEuint32 bytes
  | UnlockTicket uint256
  | LockTicket uint256
  | TransferTicket uint256 address

datatype ret =
    Count uint256
  | Ids "uint256 list"
  | Metadata string string string address bool
  | Handle handle
  | Created uint256
  | Done

text \<open>
  One external call by \<open>sender\<close>: the outcome and the state it leaves. A call that
  reverts leaves the state it found; a view never changes it.
\<close>

fun exec :: "verifier \<Rightarrow> address \<Rightarrow> call \<Rightarrow> state \<Rightarrow> (error + ret) \<times> state" where
  "exec V sender GetTicketCount s = (Inr (Count (getTicketCount s)), s)"
| "exec V sender (GetOwnerTickets who) s = (Inr (Ids (getOwnerTickets who s)), s)"
| "exec V sender (GetTicketMetadata ticketId) s =
     (case getTicketMetadata ticketId s of
        (e, v, d, ow, ex) \<Rightarrow> (Inr (Metadata e v d ow ex), s))"
| "exec V sender (GetEncryptedSeatNumber ticketId) s =
     (case getEncryptedSeatNumber sender ticketId s of
        Inl err \<Rightarrow> (Inl err, s)
      | Inr h \<Rightarrow> (Inr (Handle h), s))"
| "exec V sender (GetEncryptedLockStatus ticketId) s =
     (case getEncryptedLockStatus sender ticketId s of
        Inl err \<Rightarrow> (Inl err, s)
      | Inr h \<Rightarrow> (Inr (Handle h), s))"
| "exec V sender (CreateTicket e v d encryptedSeat seatProof) s =
     (case createTicket V sender e v d encryptedSeat seatProof s of
        Inl err \<Rightarrow> (Inl err, s)
      | Inr (ticketId, s') \<Rightarrow> (Inr (Created ticketId), s'))"
| "exec V sender (UnlockTicket ticketId) s =
     (case unlockTicket sender ticketId s of
        Inl err \<Rightarrow> (Inl err, s)
      | Inr s' \<Rightarrow> (Inr Done, s'))"
| "exec V sender (LockTicket ticketId) s =
     (case lockTicket sender ticketId s of
        Inl err \<Rightarrow> (Inl err, s)
      | Inr s' \<Rightarrow> (Inr Done, s'))"
| "exec V sender (TransferTicket ticketId newOwner) s =
     (case transferTicket sender ticketId newOwner s of
        Inl err \<Rightarrow> (Inl err, s)
      | Inr s' \<Rightarrow> (Inr Done, s'))"

text \<open>A trace of calls, each by its own sender, run in order.\<close>

fun run :: "verifier \<Rightarrow> (address \<times> call) list \<Rightarrow> state \<Rightarrow> (error + ret) list \<times> state" where
  "run V [] s = ([], s)"
| "run V ((sender, c) # cs) s =
     (case exec V sender c s of
        (r, s1) \<Rightarrow> (case run V cs s1 of (rs, s2) \<Rightarrow> (r # rs, s2)))"

text \<open>The ids that the successful \<^verbatim>\<open>createTicket\<close> calls of a trace returned, in call order.\<close>

fun createdIds :: "(error + ret) list \<Rightarrow> uint256 list" where
  "createdIds [] = []"
| "createdIds (Inr (Created ticketId) # rs) = ticketId # createdIds rs"
| "createdIds (r # rs) = createdIds rs"

text \<open>The states the contract can be in: the deployed one, and what any call leaves.\<close>

inductive reachable :: "verifier \<Rightarrow> state \<Rightarrow> bool" for V :: verifier where
  reachable_init: "reachable V initState"
| reachable_exec: "reachable V s \<Longrightarrow> reachable V (snd (exec V sender c s))"

text \<open>
  What the owner reads when decrypting the lock handle of a ticket: the platform's
  plaintext behind the handle stored in \<^verbatim>\<open>isLocked\<close>.
\<close>

definition lockStatus :: "state \<Rightarrow> uint256 \<Rightarrow> plaintext option" where
  "lockStatus s ticketId = cleartext (fhe s) (isLocked (tickets s ticketId))"

text \<open>The two halves of a call: what it returns, and the state it leaves.\<close>

definition outcome :: "verifier \<Rightarrow> address \<Rightarrow> call \<Rightarrow> state \<Rightarrow> error + ret" where
  "outcome V sender c s = fst (exec V sender c s)"

definition after :: "verifier \<Rightarrow> address \<Rightarrow> call \<Rightarrow> state \<Rightarrow> state" where
  "after V sender c s = snd (exec V sender c s)"

subsection \<open>Frames\<close>

text \<open>
  Two states that differ in storage at most in the lock handle of one ticket; and two
  that differ at most in the owner of one ticket and in the arrays of two principals.
\<close>

definition sameButLock :: "uint256 \<Rightarrow> state \<Rightarrow> state \<Rightarrow> bool" where
  "sameButLock ticketId s s' \<longleftrightarrow>
     ticketCount s' = ticketCount s \<and>
     ownerTickets s' = ownerTickets s \<and>
     tickets s' = (tickets s)(ticketId :=
        (tickets s ticketId)\<lparr>isLocked := isLocked (tickets s' ticketId)\<rparr>)"

definition sameButOwner :: "uint256 \<Rightarrow> address \<Rightarrow> address \<Rightarrow> state \<Rightarrow> state \<Rightarrow> bool" where
  "sameButOwner ticketId A B s s' \<longleftrightarrow>
     ticketCount s' = ticketCount s \<and>
     ownerTickets s' = (ownerTickets s)(A := ownerTickets s' A, B := ownerTickets s' B) \<and>
     tickets s' = (tickets s)(ticketId :=
        (tickets s ticketId)\<lparr>owner := owner (tickets s' ticketId)\<rparr>)"

subsection \<open>The storage invariant\<close>

text \<open>
  What every call keeps true of storage: a ticket exists exactly when its id is below
  the count, a slot never written holds the zero ticket, and an id occurs in a
  principal's array once when that principal owns the ticket and not at all otherwise.
\<close>

definition wellFormed :: "state \<Rightarrow> bool" where
  "wellFormed s \<longleftrightarrow>
     (\<forall>i. exists (tickets s i) \<longleftrightarrow> i < ticketCount s) \<and>
     (\<forall>i. \<not> exists (tickets s i) \<longrightarrow> tickets s i = emptyTicket) \<and>
     (\<forall>P i. count (mset (ownerTickets s P)) i =
              (if exists (tickets s i) \<and> owner (tickets s i) = P then 1 else 0))"

subsection \<open>A test scenario\<close>

text \<open>
  The fixtures of the test suite: the signers \<^verbatim>\<open>alice\<close> and \<^verbatim>\<open>bob\<close>, and a mock platform
  that accepts every input with a non-empty proof and reads the seat number off the
  ciphertext.
\<close>

definition alice :: address where
  "alice = 1"

definition bob :: address where
  "bob = 2"

definition mockVerifier :: verifier where
  "mockVerifier ct proof sender = (if proof = [] then None else Some (ucast ct))"

text \<open>
  The end-to-end scenario: alice creates ticket 0, then transfers it to bob.
\<close>

definition afterCreate :: state where
  "afterCreate =
     snd (exec mockVerifier alice (CreateTicket ''Concert'' ''Arena'' ''2025-03-15'' 42 [1]) initState)"

definition afterTransfer :: state where
  "afterTransfer = snd (exec mockVerifier alice (TransferTicket 0 bob) afterCreate)"

text \<open>
  A trace with three successful creations among a refused read, a rejected proof and a
  transfer.
\<close>

definition demoTrace :: "(address \<times> call) list" where
  "demoTrace =
     [(alice, CreateTicket ''Concert'' ''Arena'' ''2025-03-15'' 42 [1]),
      (bob, GetEncryptedLockStatus 0),
      (bob, CreateTicket ''Test Event'' ''Test Venue'' ''2025-01-01'' 7 []),
      (bob, CreateTicket ''Test Event'' ''Test Venue'' ''2025-01-01'' 7 [1]),
      (alice, TransferTicket 0 bob),
      (alice, CreateTicket ''Championship Finals 2025'' ''National Stadium'' ''March 15, 2025'' 42 [1])]"

text \<open>
  What may happen to ticket 0 after its creation: an unlock, a transfer, a lock by the
  new owner, another creation, and a read.
\<close>

definition ownerTrace :: "(address \<times> call) list" where
  "ownerTrace =
     [(alice, UnlockTicket 0),
      (alice, TransferTicket 0 bob),
      (bob, LockTicket 0),
      (bob, CreateTicket ''Test Event'' ''Test Venue'' ''2025-01-01'' 7 [1]),
      (bob, GetEncryptedSeatNumber 0)]"

section \<open>Facts about the loop and the invariant\<close>

lemma swap_pop_mset:
  assumes "i < length xs"
  shows "mset (butlast (xs[i := xs ! (length xs - 1)])) = mset xs - {#xs ! i#}"
proof (cases xs rule: rev_cases)
  case Nil
  with assms show ?thesis by simp
next
  case (snoc ys l)
  show ?thesis
  proof (cases "i < length ys")
    case True
    then show ?thesis using snoc
      by (simp add: list_update_append nth_append mset_update)
  next
    case False
    with assms snoc have "i = length ys" by simp
    then show ?thesis using snoc by simp
  qed
qed

lemma removeLoop_mset:
  "ticketId \<in> set (drop i xs) \<Longrightarrow> mset (removeLoop ticketId i xs) = mset xs - {#ticketId#}"
proof (induction ticketId i xs rule: removeLoop.induct)
  case (1 ticketId i xs)
  show ?case
  proof (cases "i < length xs")
    case False
    with "1.prems" show ?thesis by simp
  next
    case True
    show ?thesis
    proof (cases "xs ! i = ticketId")
      case hit: True
      show ?thesis using True hit swap_pop_mset [OF True]
        by (simp add: removeLoop.simps [of ticketId i xs])
    next
      case miss: False
      have "drop i xs = xs ! i # drop (Suc i) xs"
        using True by (simp add: Cons_nth_drop_Suc)
      with "1.prems" miss have "ticketId \<in> set (drop (i + 1) xs)" by auto
      with "1.IH" True miss show ?thesis
        by (simp add: removeLoop.simps [of ticketId i xs])
    qed
  qed
qed

lemma removeLoop_absent:
  "ticketId \<notin> set (drop i xs) \<Longrightarrow> removeLoop ticketId i xs = xs"
proof (induction ticketId i xs rule: removeLoop.induct)
  case (1 ticketId i xs)
  show ?case
  proof (cases "i < length xs")
    case False
    then show ?thesis by (simp add: removeLoop.simps [of ticketId i xs])
  next
    case True
    have d: "drop i xs = xs ! i # drop (Suc i) xs"
      using True by (simp add: Cons_nth_drop_Suc)
    with "1.prems" have miss: "xs ! i \<noteq> ticketId" and "ticketId \<notin> set (drop (i + 1) xs)" by auto
    with "1.IH" True show ?thesis
      by (simp add: removeLoop.simps [of ticketId i xs])
  qed
qed

lemma unat_inc:
  fixes c :: uint256
  assumes "c \<noteq> - 1"
  shows "unat (c + 1) = Suc (unat c)"
proof -
  have "1 + c \<noteq> 0"
  proof
    assume "1 + c = 0"
    then have "c = - 1" by (simp add: eq_neg_iff_add_eq_0 add.commute)
    with assms show False by simp
  qed
  then show ?thesis using unatSuc [of c] by (simp add: add.commute)
qed

lemma word_less_inc:
  fixes c i :: uint256
  assumes "c \<noteq> - 1"
  shows "(i < c + 1) = (i < c \<or> i = c)"
  using unat_inc [OF assms]
  by (auto simp: word_less_nat_alt word_unat_eq_iff)

lemma wellFormed_init: "wellFormed initState"
  by (simp add: wellFormed_def initState_def emptyTicket_def)

lemma createTicket_effect:
  assumes "createTicket V sender e v d ct p s = Inr (ticketId, s')"
  shows "ticketId = ticketCount s"
    and "ticketCount s \<noteq> - 1"
    and "ticketCount s' = ticketCount s + 1"
    and "tickets s' = (tickets s)(ticketId :=
           \<lparr>eventName = e, venue = v, date = d,
            encryptedSeatNumber = nextHandle (fhe s), isLocked = nextHandle (fhe s) + 1,
            owner = sender, exists = True\<rparr>)"
    and "ownerTickets s' = (ownerTickets s)(sender := ownerTickets s sender @ [ticketId])"
    and "cleartext (fhe s') (nextHandle (fhe s) + 1) = Some (PBool True)"
  using assms
  by (auto simp: createTicket_def fromExternal_def asEbool_def allow_def allowThis_def Let_def
      split: if_splits option.splits)

lemma lockTicket_effect:
  assumes "lockTicket sender ticketId s = Inr s'"
  shows "exists (tickets s ticketId)"
    and "owner (tickets s ticketId) = sender"
    and "ticketCount s' = ticketCount s"
    and "tickets s' = (tickets s)(ticketId := (tickets s ticketId)\<lparr>isLocked := nextHandle (fhe s)\<rparr>)"
    and "ownerTickets s' = ownerTickets s"
    and "cleartext (fhe s') (nextHandle (fhe s)) = Some (PBool True)"
  using assms
  by (auto simp: lockTicket_def asEbool_def allow_def allowThis_def Let_def split: if_splits)

lemma unlockTicket_effect:
  assumes "unlockTicket sender ticketId s = Inr s'"
  shows "exists (tickets s ticketId)"
    and "owner (tickets s ticketId) = sender"
    and "ticketCount s' = ticketCount s"
    and "tickets s' = (tickets s)(ticketId := (tickets s ticketId)\<lparr>isLocked := nextHandle (fhe s)\<rparr>)"
    and "ownerTickets s' = ownerTickets s"
    and "cleartext (fhe s') (nextHandle (fhe s)) = Some (PBool False)"
  using assms
  by (auto simp: unlockTicket_def asEbool_def allow_def allowThis_def Let_def split: if_splits)

lemma transferTicket_effect:
  assumes "transferTicket sender ticketId newOwner s = Inr s'"
  shows "exists (tickets s ticketId)"
    and "owner (tickets s ticketId) = sender"
    and "newOwner \<noteq> 0"
    and "newOwner \<noteq> sender"
    and "ticketCount s' = ticketCount s"
    and "tickets s' = (tickets s)(ticketId := (tickets s ticketId)\<lparr>owner := newOwner\<rparr>)"
    and "ownerTickets s' = (ownerTickets s)
           (sender := removeLoop ticketId 0 (ownerTickets s sender),
            newOwner := ownerTickets s newOwner @ [ticketId])"
    and "cleartext (fhe s') = cleartext (fhe s)"
  using assms
  by (auto simp: transferTicket_def allow_def Let_def split: if_splits)

lemma wellFormed_exists: "wellFormed s \<Longrightarrow> exists (tickets s i) = (i < ticketCount s)"
  by (simp add: wellFormed_def)

lemma wellFormed_empty: "wellFormed s \<Longrightarrow> \<not> exists (tickets s i) \<Longrightarrow> tickets s i = emptyTicket"
  by (simp add: wellFormed_def)

lemma wellFormed_count:
  "wellFormed s \<Longrightarrow> count (mset (ownerTickets s P)) i =
     (if exists (tickets s i) \<and> owner (tickets s i) = P then 1 else 0)"
  by (simp add: wellFormed_def)

lemma wellFormed_createTicket:
  assumes wf: "wellFormed s" and ok: "createTicket V sender e v d ct p s = Inr (ticketId, s')"
  shows "wellFormed s'"
proof -
  note eff = createTicket_effect [OF ok]
  have fresh: "\<not> exists (tickets s ticketId)"
    using wf eff(1) by (simp add: wellFormed_def)
  have absent: "count (mset (ownerTickets s P)) ticketId = 0" for P
    using wf fresh by (simp add: wellFormed_def)
  have a: "\<forall>i. exists (tickets s' i) \<longleftrightarrow> i < ticketCount s'"
    using wf eff(1) by (auto simp: wellFormed_def eff(3,4) word_less_inc [OF eff(2)])
  have b: "\<forall>i. \<not> exists (tickets s' i) \<longrightarrow> tickets s' i = emptyTicket"
    using wf by (simp add: wellFormed_def eff(4))
  have c: "\<forall>P i. count (mset (ownerTickets s' P)) i =
              (if exists (tickets s' i) \<and> owner (tickets s' i) = P then 1 else 0)"
  proof (intro allI)
    fix P i
    show "count (mset (ownerTickets s' P)) i =
              (if exists (tickets s' i) \<and> owner (tickets s' i) = P then 1 else 0)"
    proof (cases "i = ticketId")
      case True
      then show ?thesis using absent [of P] by (simp add: eff(4,5))
    next
      case False
      then show ?thesis using wellFormed_count [OF wf, of P i]
        by (auto simp: eff(4,5) split: if_splits)
    qed
  qed
  from a b c show ?thesis by (simp add: wellFormed_def)
qed

lemma wellFormed_lockTicket:
  assumes wf: "wellFormed s" and ok: "lockTicket sender ticketId s = Inr s'"
  shows "wellFormed s'"
  using wf lockTicket_effect(1) [OF ok]
  by (simp add: wellFormed_def lockTicket_effect(3,4,5) [OF ok])

lemma wellFormed_unlockTicket:
  assumes wf: "wellFormed s" and ok: "unlockTicket sender ticketId s = Inr s'"
  shows "wellFormed s'"
  using wf unlockTicket_effect(1) [OF ok]
  by (simp add: wellFormed_def unlockTicket_effect(3,4,5) [OF ok])

lemma wellFormed_transferTicket:
  assumes wf: "wellFormed s" and ok: "transferTicket sender ticketId newOwner s = Inr s'"
  shows "wellFormed s'"
proof -
  note eff = transferTicket_effect [OF ok]
  have one: "count (mset (ownerTickets s sender)) ticketId = 1"
    using wf eff(1,2) by (simp add: wellFormed_def)
  then have "ticketId \<in># mset (ownerTickets s sender)"
    by (intro count_inI) simp
  then have "ticketId \<in> set (drop 0 (ownerTickets s sender))"
    by simp
  then have rm: "mset (removeLoop ticketId 0 (ownerTickets s sender)) =
                   mset (ownerTickets s sender) - {#ticketId#}"
    by (rule removeLoop_mset)
  have none: "count (mset (ownerTickets s newOwner)) ticketId = 0"
    using wf eff(2,4) by (simp add: wellFormed_def)
  have a: "\<forall>i. exists (tickets s' i) \<longleftrightarrow> i < ticketCount s'"
    using wf eff(1) by (simp add: wellFormed_def eff(5,6))
  have b: "\<forall>i. \<not> exists (tickets s' i) \<longrightarrow> tickets s' i = emptyTicket"
    using wf eff(1) by (simp add: wellFormed_def eff(6))
  have c: "\<forall>P i. count (mset (ownerTickets s' P)) i =
              (if exists (tickets s' i) \<and> owner (tickets s' i) = P then 1 else 0)"
  proof (intro allI)
    fix P i
    show "count (mset (ownerTickets s' P)) i =
              (if exists (tickets s' i) \<and> owner (tickets s' i) = P then 1 else 0)"
    proof (cases "i = ticketId")
      case True
      have "count (mset (removeLoop ticketId 0 (ownerTickets s sender))) ticketId = 0"
        using one by (simp add: rm)
      then have gone: "ticketId \<notin> set (removeLoop ticketId 0 (ownerTickets s sender))"
        by (simp add: count_eq_zero_iff)
      show ?thesis using True gone none eff(1,2,4) wellFormed_count [OF wf, of P ticketId]
        by (auto simp: eff(6,7) split: if_splits)
    next
      case False
      have cnt: "count (mset (removeLoop ticketId 0 (ownerTickets s sender))) i =
              count (mset (ownerTickets s sender)) i"
        using False by (simp add: rm)
      then have mem: "(i \<in> set (removeLoop ticketId 0 (ownerTickets s sender))) =
              (i \<in> set (ownerTickets s sender))"
        by (metis count_eq_zero_iff set_mset_mset)
      show ?thesis using False cnt mem wellFormed_count [OF wf, of P i] eff(4)
        by (auto simp: eff(6,7) split: if_splits)
    qed
  qed
  from a b c show ?thesis by (simp add: wellFormed_def)
qed

lemma wellFormed_exec:
  assumes "wellFormed s"
  shows "wellFormed (snd (exec V sender c s))"
proof (cases c)
  case (CreateTicket e v d ct p)
  then show ?thesis using assms wellFormed_createTicket
    by (auto split: sum.splits)
next
  case (UnlockTicket i)
  then show ?thesis using assms wellFormed_unlockTicket
    by (auto split: sum.splits)
next
  case (LockTicket i)
  then show ?thesis using assms wellFormed_lockTicket
    by (auto split: sum.splits)
next
  case (TransferTicket i w)
  then show ?thesis using assms wellFormed_transferTicket
    by (auto split: sum.splits)
qed (use assms in \<open>auto split: sum.splits prod.splits\<close>)

lemma reachable_wellFormed: "reachable V s \<Longrightarrow> wellFormed s"
  by (induction rule: reachable.induct) (simp_all add: wellFormed_init wellFormed_exec)

subsection \<open>The states of the scenario\<close>

lemma reachable_afterCreate: "reachable mockVerifier afterCreate"
  unfolding afterCreate_def by (intro reachable_exec reachable_init)

lemma reachable_afterTransfer: "reachable mockVerifier afterTransfer"
  unfolding afterTransfer_def by (intro reachable_exec reachable_afterCreate)

lemma afterCreate_storage:
  "ticketCount afterCreate = 1"
  "tickets afterCreate = (\<lambda>_. emptyTicket)(0 :=
      \<lparr>eventName = ''Concert'', venue = ''Arena'', date = ''2025-03-15'',
       encryptedSeatNumber = 1, isLocked = 2, owner = alice, exists = True\<rparr>)"
  "ownerTickets afterCreate = (\<lambda>_. [])(alice := [0])"
  "cleartext (fhe afterCreate) = [1 \<mapsto> PUint32 42, 2 \<mapsto> PBool True]"
  by (simp_all add: afterCreate_def createTicket_def fromExternal_def asEbool_def allow_def
      allowThis_def mockVerifier_def initState_def initGateway_def Let_def)
    (simp_all only: numeral_2_eq_2)

lemma removeLoop_only: "removeLoop 0 0 [0] = []"
  by (simp add: removeLoop.simps)

lemma afterTransfer_storage:
  "ticketCount afterTransfer = 1"
  "tickets afterTransfer = (\<lambda>_. emptyTicket)(0 :=
      \<lparr>eventName = ''Concert'', venue = ''Arena'', date = ''2025-03-15'',
       encryptedSeatNumber = 1, isLocked = 2, owner = bob, exists = True\<rparr>)"
  "ownerTickets afterTransfer = (\<lambda>_. [])(alice := [], bob := [0])"
  by (simp_all add: afterTransfer_def transferTicket_def afterCreate_storage allow_def
      alice_def bob_def removeLoop_only Let_def)

lemma demoTrace_outcomes:
  "fst (run mockVerifier demoTrace initState) =
     [Inr (Created 0), Inl NotTicketOwner, Inl ProofRejected, Inr (Created 1), Inr Done,
      Inr (Created 2)]"
  by (simp add: demoTrace_def createTicket_def fromExternal_def asEbool_def allow_def
      allowThis_def mockVerifier_def initState_def initGateway_def Let_def
      getEncryptedLockStatus_def transferTicket_def alice_def bob_def
      split: prod.splits)

subsection \<open>The count along a trace\<close>

lemma createdIds_Cons:
  "createdIds (r # rs) =
     (case r of Inr (Created ticketId) \<Rightarrow> ticketId # createdIds rs | _ \<Rightarrow> createdIds rs)"
  by (cases "(r # rs)" rule: createdIds.cases) simp_all

lemma exec_ticketCount:
  assumes "exec V sender c s = (r, s')"
  shows "case r of
           Inr (Created ticketId) \<Rightarrow>
             ticketId = ticketCount s \<and> unat (ticketCount s') = Suc (unat (ticketCount s))
         | _ \<Rightarrow> ticketCount s' = ticketCount s"
proof (cases c)
  case (CreateTicket e v d ct p)
  show ?thesis
  proof (cases "createTicket V sender e v d ct p s")
    case (Inl err)
    with assms CreateTicket show ?thesis by auto
  next
    case (Inr res)
    obtain ticketId s1 where res: "res = (ticketId, s1)" by (cases res)
    note eff = createTicket_effect [OF Inr [unfolded res]]
    from assms CreateTicket Inr res have "r = Inr (Created ticketId)" "s' = s1" by auto
    then show ?thesis using eff(1,3) unat_inc [OF eff(2)] by simp
  qed
next
  case (UnlockTicket i)
  then show ?thesis using assms unlockTicket_effect(3)
    by (auto split: sum.splits)
next
  case (LockTicket i)
  then show ?thesis using assms lockTicket_effect(3)
    by (auto split: sum.splits)
next
  case (TransferTicket i w)
  then show ?thesis using assms transferTicket_effect(5)
    by (auto split: sum.splits)
qed (use assms in \<open>auto split: sum.splits prod.splits\<close>)

lemma run_createdIds:
  "run V cs s = (rs, s') \<Longrightarrow>
     map unat (createdIds rs)
       = [unat (ticketCount s) ..< unat (ticketCount s) + length (createdIds rs)]
     \<and> unat (ticketCount s') = unat (ticketCount s) + length (createdIds rs)"
proof (induction cs arbitrary: s rs s')
  case Nil
  then show ?case by simp
next
  case (Cons call cs)
  obtain sender c where call: "call = (sender, c)" by (cases call)
  obtain r s1 where step: "exec V sender c s = (r, s1)" by (cases "exec V sender c s")
  obtain rs1 s2 where rest: "run V cs s1 = (rs1, s2)" by (cases "run V cs s1")
  from Cons.prems call step rest have rs: "rs = r # rs1" and s': "s' = s2" by auto
  note IH = Cons.IH [OF rest]
  note cnt = exec_ticketCount [OF step]
  show ?case
  proof (cases "\<exists>ticketId. r = Inr (Created ticketId)")
    case True
    then obtain ticketId where r: "r = Inr (Created ticketId)" by blast
    from cnt r have id: "ticketId = ticketCount s"
      and up: "unat (ticketCount s1) = Suc (unat (ticketCount s))" by auto
    have "[unat (ticketCount s) ..< unat (ticketCount s) + Suc (length (createdIds rs1))]
            = unat (ticketCount s)
              # [Suc (unat (ticketCount s)) ..< Suc (unat (ticketCount s)) + length (createdIds rs1)]"
      by (simp add: upt_conv_Cons del: upt_Suc)
    then show ?thesis using IH
      by (simp add: rs s' r id up del: upt_Suc)
  next
    case False
    then have same: "ticketCount s1 = ticketCount s" and ids: "createdIds (r # rs1) = createdIds rs1"
      using cnt by (auto simp: createdIds_Cons split: sum.splits ret.splits)
    show ?thesis using IH by (simp add: rs s' same ids)
  qed
qed

lemma ownerTrace_outcomes:
  "fst (run mockVerifier ownerTrace afterCreate)
     = [Inr Done, Inr Done, Inr Done, Inr (Created 1), Inr (Handle 1)]"
  by (simp add: ownerTrace_def unlockTicket_def lockTicket_def transferTicket_def
      createTicket_def fromExternal_def getEncryptedSeatNumber_def mockVerifier_def
      asEbool_def allow_def allowThis_def afterCreate_storage alice_def bob_def Let_def
      split: prod.splits)

subsection \<open>Locking, unlocking and what a call leaves alone\<close>

lemma lock_step:
  assumes "exists (tickets s ticketId)" and "owner (tickets s ticketId) = sender"
  shows "outcome V sender (LockTicket ticketId) s = Inr Done"
    and "lockStatus (after V sender (LockTicket ticketId) s) ticketId = Some (PBool True)"
    and "exists (tickets (after V sender (LockTicket ticketId) s) ticketId)"
    and "owner (tickets (after V sender (LockTicket ticketId) s) ticketId) = sender"
  using assms
  by (simp_all add: outcome_def after_def lockTicket_def asEbool_def allow_def allowThis_def
      lockStatus_def Let_def)

lemma unlock_step:
  assumes "exists (tickets s ticketId)" and "owner (tickets s ticketId) = sender"
  shows "outcome V sender (UnlockTicket ticketId) s = Inr Done"
    and "lockStatus (after V sender (UnlockTicket ticketId) s) ticketId = Some (PBool False)"
    and "exists (tickets (after V sender (UnlockTicket ticketId) s) ticketId)"
    and "owner (tickets (after V sender (UnlockTicket ticketId) s) ticketId) = sender"
  using assms
  by (simp_all add: outcome_def after_def unlockTicket_def asEbool_def allow_def allowThis_def
      lockStatus_def Let_def)

lemma sameButLock_lock: "sameButLock ticketId s (after V sender (LockTicket ticketId) s)"
proof (cases "lockTicket sender ticketId s")
  case (Inl err)
  then show ?thesis by (simp add: sameButLock_def after_def)
next
  case (Inr s')
  note eff = lockTicket_effect [OF Inr]
  show ?thesis using Inr by (simp add: sameButLock_def after_def eff(3,4,5))
qed

lemma sameButLock_unlock: "sameButLock ticketId s (after V sender (UnlockTicket ticketId) s)"
proof (cases "unlockTicket sender ticketId s")
  case (Inl err)
  then show ?thesis by (simp add: sameButLock_def after_def)
next
  case (Inr s')
  note eff = unlockTicket_effect [OF Inr]
  show ?thesis using Inr by (simp add: sameButLock_def after_def eff(3,4,5))
qed

lemma sameButOwner_transfer:
  "sameButOwner ticketId sender newOwner s (after V sender (TransferTicket ticketId newOwner) s)"
proof (cases "transferTicket sender ticketId newOwner s")
  case (Inl err)
  then show ?thesis by (simp add: sameButOwner_def after_def)
next
  case (Inr s')
  note eff = transferTicket_effect [OF Inr]
  show ?thesis using Inr eff(4) by (simp add: sameButOwner_def after_def eff(5,6,7))
qed

lemma exec_fields:
  assumes wf: "wellFormed s" and ex: "exists (tickets s i)" and step: "exec V sender c s = (r, s')"
  shows "exists (tickets s' i)
       \<and> encryptedSeatNumber (tickets s' i) = encryptedSeatNumber (tickets s i)
       \<and> eventName (tickets s' i) = eventName (tickets s i)
       \<and> venue (tickets s' i) = venue (tickets s i)
       \<and> date (tickets s' i) = date (tickets s i)"
proof (cases c)
  case (CreateTicket e v d ct p)
  show ?thesis
  proof (cases "createTicket V sender e v d ct p s")
    case (Inl err)
    with step CreateTicket ex show ?thesis by auto
  next
    case (Inr res)
    obtain ticketId s1 where res: "res = (ticketId, s1)" by (cases res)
    note eff = createTicket_effect [OF Inr [unfolded res]]
    from step CreateTicket Inr res have s': "s' = s1" by auto
    have "i < ticketCount s" using ex by (simp add: wellFormed_exists [OF wf])
    then have "i \<noteq> ticketId" using eff(1) by auto
    then show ?thesis using ex by (simp add: s' eff(4))
  qed
next
  case (UnlockTicket j)
  show ?thesis
  proof (cases "unlockTicket sender j s")
    case (Inl err)
    with step UnlockTicket ex show ?thesis by auto
  next
    case (Inr s1)
    with step UnlockTicket have s': "s' = s1" by auto
    show ?thesis using ex by (auto simp: s' unlockTicket_effect(4) [OF Inr])
  qed
next
  case (LockTicket j)
  show ?thesis
  proof (cases "lockTicket sender j s")
    case (Inl err)
    with step LockTicket ex show ?thesis by auto
  next
    case (Inr s1)
    with step LockTicket have s': "s' = s1" by auto
    show ?thesis using ex by (auto simp: s' lockTicket_effect(4) [OF Inr])
  qed
next
  case (TransferTicket j w)
  show ?thesis
  proof (cases "transferTicket sender j w s")
    case (Inl err)
    with step TransferTicket ex show ?thesis by auto
  next
    case (Inr s1)
    with step TransferTicket have s': "s' = s1" by auto
    show ?thesis using ex by (auto simp: s' transferTicket_effect(6) [OF Inr])
  qed
qed (use ex step in \<open>auto split: sum.splits prod.splits\<close>)

lemma run_fields:
  "wellFormed s \<Longrightarrow> exists (tickets s i) \<Longrightarrow> run V cs s = (rs, s') \<Longrightarrow>
     exists (tickets s' i)
     \<and> encryptedSeatNumber (tickets s' i) = encryptedSeatNumber (tickets s i)
     \<and> eventName (tickets s' i) = eventName (tickets s i)
     \<and> venue (tickets s' i) = venue (tickets s i)
     \<and> date (tickets s' i) = date (tickets s i)"
proof (induction cs arbitrary: s rs s')
  case Nil
  then show ?case by simp
next
  case (Cons call cs)
  obtain sender c where call: "call = (sender, c)" by (cases call)
  obtain r s1 where step: "exec V sender c s = (r, s1)" by (cases "exec V sender c s")
  obtain rs1 s2 where rest: "run V cs s1 = (rs1, s2)" by (cases "run V cs s1")
  from Cons.prems(3) call step rest have s': "s' = s2" by auto
  have wf1: "wellFormed s1"
    using wellFormed_exec [OF Cons.prems(1), of V sender c] step by simp
  note one = exec_fields [OF Cons.prems(1,2) step]
  from one have ex1: "exists (tickets s1 i)" by simp
  from Cons.IH [OF wf1 ex1 rest] one show ?case by (simp add: s')
qed

section \<open>Properties of the registry\<close>

text \<open>
  C1: \<^verbatim>\<open>createTicket\<close> with an empty event name, venue or date is to fail with
  \<^verbatim>\<open>InvalidInput\<close> and leave the count unchanged. The contract has no such check: from
  the deployed state, with an input the platform accepts, each of the three calls
  returns id 0, and the one with the empty event name is seen to raise the count to 1.
\<close>

theorem createTicket_accepts_empty_fields:
  "fst (exec mockVerifier alice (CreateTicket [] ''Test Venue'' ''2025-01-01'' 1 [1]) initState)
     = Inr (Created 0)
   \<and> getTicketCount
       (snd (exec mockVerifier alice (CreateTicket [] ''Test Venue'' ''2025-01-01'' 1 [1]) initState))
     = 1
   \<and> fst (exec mockVerifier alice (CreateTicket ''Test Event'' [] ''2025-01-01'' 1 [1]) initState)
     = Inr (Created 0)
   \<and> fst (exec mockVerifier alice (CreateTicket ''Test Event'' ''Test Venue'' [] 1 [1]) initState)
     = Inr (Created 0)"
  by (simp add: createTicket_def fromExternal_def asEbool_def mockVerifier_def initState_def
      initGateway_def getTicketCount_def Let_def)

text \<open>
  C10: in a reachable state, \<^verbatim>\<open>getTicketMetadata\<close> of an id at or above the count does not
  fail: it returns empty event name, venue and date, the zero owner and
  \<^verbatim>\<open>exists = false\<close>, and leaves the state as it was.
\<close>

theorem getTicketMetadata_of_missing:
  assumes "reachable V s" and "getTicketCount s \<le> ticketId"
  shows "exec V sender (GetTicketMetadata ticketId) s = (Inr (Metadata [] [] [] 0 False), s)"
proof -
  have wf: "wellFormed s" using assms(1) by (rule reachable_wellFormed)
  have "\<not> exists (tickets s ticketId)"
    using assms(2) by (simp add: wellFormed_exists [OF wf] getTicketCount_def)
  then have "tickets s ticketId = emptyTicket" by (rule wellFormed_empty [OF wf])
  then show ?thesis by (simp add: getTicketMetadata_def emptyTicket_def)
qed

theorem getTicketMetadata_of_missing_witness:
  "reachable mockVerifier afterCreate \<and> getTicketCount afterCreate \<le> 999 \<and>
   exec mockVerifier bob (GetTicketMetadata 999) afterCreate
     = (Inr (Metadata [] [] [] 0 False), afterCreate)"
proof -
  have le: "getTicketCount afterCreate \<le> 999"
    by (simp add: getTicketCount_def afterCreate_storage)
  show ?thesis
    using getTicketMetadata_of_missing [OF reachable_afterCreate le, of bob]
      reachable_afterCreate le by simp
qed

text \<open>
  C4: for an existing ticket and a caller who is not its owner, each of
  \<^verbatim>\<open>getEncryptedSeatNumber\<close>, \<^verbatim>\<open>getEncryptedLockStatus\<close>, \<^verbatim>\<open>lockTicket\<close>, \<^verbatim>\<open>unlockTicket\<close>
  and \<^verbatim>\<open>transferTicket\<close> (whatever the new owner) reverts with "Not ticket owner", a
  \<^verbatim>\<open>NotAuthorized\<close> failure, and leaves the whole state, platform and log included, as it
  was. This holds in every state, reachable or not.
\<close>

theorem not_owner_rejected:
  assumes "exists (tickets s ticketId)" and "owner (tickets s ticketId) \<noteq> sender"
  shows "exec V sender (GetEncryptedSeatNumber ticketId) s = (Inl NotTicketOwner, s)
       \<and> exec V sender (GetEncryptedLockStatus ticketId) s = (Inl NotTicketOwner, s)
       \<and> exec V sender (LockTicket ticketId) s = (Inl NotTicketOwner, s)
       \<and> exec V sender (UnlockTicket ticketId) s = (Inl NotTicketOwner, s)
       \<and> exec V sender (TransferTicket ticketId newOwner) s = (Inl NotTicketOwner, s)
       \<and> kindOf NotTicketOwner = NotAuthorized"
  using assms
  by (simp add: getEncryptedSeatNumber_def getEncryptedLockStatus_def lockTicket_def
      unlockTicket_def transferTicket_def)

theorem not_owner_rejected_witness:
  "exists (tickets afterCreate 0) \<and> owner (tickets afterCreate 0) \<noteq> bob
   \<and> exec mockVerifier bob (GetEncryptedSeatNumber 0) afterCreate = (Inl NotTicketOwner, afterCreate)
   \<and> exec mockVerifier bob (GetEncryptedLockStatus 0) afterCreate = (Inl NotTicketOwner, afterCreate)
   \<and> exec mockVerifier bob (LockTicket 0) afterCreate = (Inl NotTicketOwner, afterCreate)
   \<and> exec mockVerifier bob (UnlockTicket 0) afterCreate = (Inl NotTicketOwner, afterCreate)
   \<and> exec mockVerifier bob (TransferTicket 0 bob) afterCreate = (Inl NotTicketOwner, afterCreate)"
proof -
  have ex: "exists (tickets afterCreate 0)"
    by (simp add: afterCreate_storage)
  have ow: "owner (tickets afterCreate 0) \<noteq> bob"
    by (simp add: afterCreate_storage alice_def bob_def)
  show ?thesis
    using not_owner_rejected [OF ex ow, of mockVerifier bob] ex ow by simp
qed

text \<open>
  C6 as stated counts \<^verbatim>\<open>getTicketMetadata\<close> among the operations that fail with
  \<^verbatim>\<open>NotFound\<close> on an id that was never created. It does not fail: on the deployed
  contract, \<^verbatim>\<open>getTicketMetadata(999)\<close> returns the zero fields with \<^verbatim>\<open>exists = false\<close>.
\<close>

theorem missing_ticket_metadata_counterexample:
  "getTicketCount initState \<le> 999
   \<and> fst (exec mockVerifier alice (GetTicketMetadata 999) initState)
       = Inr (Metadata [] [] [] 0 False)
   \<and> fst (exec mockVerifier alice (GetTicketMetadata 999) initState) \<noteq> Inl TicketDoesNotExist"
  by (simp add: getTicketCount_def getTicketMetadata_def initState_def emptyTicket_def)

text \<open>
  C6, amended: in a reachable state, for an id at or above the count, each of
  \<^verbatim>\<open>getEncryptedSeatNumber\<close>, \<^verbatim>\<open>getEncryptedLockStatus\<close>, \<^verbatim>\<open>lockTicket\<close>, \<^verbatim>\<open>unlockTicket\<close>
  and \<^verbatim>\<open>transferTicket\<close> reverts with "Ticket does not exist", a \<^verbatim>\<open>NotFound\<close> failure,
  whoever calls, and leaves the whole state as it was.
\<close>

theorem missing_ticket_rejected:
  assumes "reachable V s" and "getTicketCount s \<le> ticketId"
  shows "exec V sender (GetEncryptedSeatNumber ticketId) s = (Inl TicketDoesNotExist, s)
       \<and> exec V sender (GetEncryptedLockStatus ticketId) s = (Inl TicketDoesNotExist, s)
       \<and> exec V sender (LockTicket ticketId) s = (Inl TicketDoesNotExist, s)
       \<and> exec V sender (UnlockTicket ticketId) s = (Inl TicketDoesNotExist, s)
       \<and> exec V sender (TransferTicket ticketId newOwner) s = (Inl TicketDoesNotExist, s)
       \<and> kindOf TicketDoesNotExist = NotFound"
proof -
  have wf: "wellFormed s" using assms(1) by (rule reachable_wellFormed)
  have "\<not> exists (tickets s ticketId)"
    using assms(2) by (simp add: wellFormed_exists [OF wf] getTicketCount_def)
  then show ?thesis
    by (simp add: getEncryptedSeatNumber_def getEncryptedLockStatus_def lockTicket_def
        unlockTicket_def transferTicket_def)
qed

theorem missing_ticket_rejected_witness:
  "reachable mockVerifier afterCreate \<and> getTicketCount afterCreate \<le> 999
   \<and> exec mockVerifier alice (GetEncryptedSeatNumber 999) afterCreate = (Inl TicketDoesNotExist, afterCreate)
   \<and> exec mockVerifier alice (GetEncryptedLockStatus 999) afterCreate = (Inl TicketDoesNotExist, afterCreate)
   \<and> exec mockVerifier alice (LockTicket 999) afterCreate = (Inl TicketDoesNotExist, afterCreate)
   \<and> exec mockVerifier alice (UnlockTicket 999) afterCreate = (Inl TicketDoesNotExist, afterCreate)
   \<and> exec mockVerifier alice (TransferTicket 999 bob) afterCreate = (Inl TicketDoesNotExist, afterCreate)"
proof -
  have le: "getTicketCount afterCreate \<le> 999"
    by (simp add: getTicketCount_def afterCreate_storage)
  show ?thesis
    using missing_ticket_rejected [OF reachable_afterCreate le, of alice bob]
      reachable_afterCreate le by simp
qed

text \<open>
  C7: right after a successful \<^verbatim>\<open>createTicket\<close>, from any state and for any caller and
  inputs, the lock handle of the new ticket decrypts to \<^verbatim>\<open>true\<close>, and the creator can
  read that handle.
\<close>

theorem new_ticket_locked:
  assumes "exec V sender (CreateTicket e v d encryptedSeat seatProof) s = (Inr (Created ticketId), s')"
  shows "lockStatus s' ticketId = Some (PBool True)
       \<and> exec V sender (GetEncryptedLockStatus ticketId) s'
           = (Inr (Handle (isLocked (tickets s' ticketId))), s')"
proof -
  from assms have ok: "createTicket V sender e v d encryptedSeat seatProof s = Inr (ticketId, s')"
    by (auto split: sum.splits)
  note eff = createTicket_effect [OF ok]
  show ?thesis using eff(6)
    by (simp add: lockStatus_def getEncryptedLockStatus_def eff(4))
qed

theorem new_ticket_locked_witness:
  "exec mockVerifier alice (CreateTicket ''Concert'' ''Arena'' ''2025-03-15'' 42 [1]) initState
     = (Inr (Created 0), afterCreate)
   \<and> lockStatus afterCreate 0 = Some (PBool True)
   \<and> exec mockVerifier alice (GetEncryptedLockStatus 0) afterCreate
       = (Inr (Handle (isLocked (tickets afterCreate 0))), afterCreate)"
proof -
  have run: "exec mockVerifier alice (CreateTicket ''Concert'' ''Arena'' ''2025-03-15'' 42 [1]) initState
     = (Inr (Created 0), afterCreate)"
    by (simp add: afterCreate_def createTicket_def fromExternal_def asEbool_def
        mockVerifier_def initState_def Let_def)
  show ?thesis using new_ticket_locked [OF run] run by simp
qed

text \<open>
  C2: along any trace of calls from the deployed state, by any senders and with any
  other calls or failed creations in between, the ids returned by the successful
  \<^verbatim>\<open>createTicket\<close> calls are 0, 1, ..., N-1 in call order, and \<^verbatim>\<open>getTicketCount()\<close> is N at
  the end, N being the number of successful creations. Every prefix of a trace is a
  trace, so the count is the next id after each call.
\<close>

theorem sequential_ids:
  assumes "run V cs initState = (rs, s')"
  shows "map unat (createdIds rs) = [0 ..< length (createdIds rs)]
       \<and> unat (getTicketCount s') = length (createdIds rs)"
  using run_createdIds [OF assms] by (simp add: getTicketCount_def initState_def)

theorem sequential_ids_witness:
  "createdIds (fst (run mockVerifier demoTrace initState)) = [0, 1, 2]
   \<and> map unat (createdIds (fst (run mockVerifier demoTrace initState))) = [0 ..< 3]
   \<and> unat (getTicketCount (snd (run mockVerifier demoTrace initState))) = 3"
proof -
  have ids: "createdIds (fst (run mockVerifier demoTrace initState)) = [0, 1, 2]"
    by (simp add: demoTrace_outcomes)
  have "run mockVerifier demoTrace initState
          = (fst (run mockVerifier demoTrace initState), snd (run mockVerifier demoTrace initState))"
    by simp
  from sequential_ids [OF this] ids show ?thesis
    by (simp add: numeral_3_eq_3 numeral_2_eq_2)
qed

text \<open>
  C3: in every reachable state, for every principal P and every id i, the array
  \<^verbatim>\<open>getOwnerTickets(P)\<close> contains i exactly when \<^verbatim>\<open>getTicketMetadata(i)\<close> reports owner P and
  \<^verbatim>\<open>exists = true\<close>.
\<close>

theorem ownership_index_consistent:
  assumes "reachable V s"
  shows "(i \<in> set (getOwnerTickets P s)) = (snd (snd (snd (getTicketMetadata i s))) = (P, True))"
proof -
  have wf: "wellFormed s" using assms by (rule reachable_wellFormed)
  have "(i \<in> set (ownerTickets s P)) = (count (mset (ownerTickets s P)) i \<noteq> 0)"
    by (simp add: count_eq_zero_iff)
  then show ?thesis
    by (auto simp: wellFormed_count [OF wf] getOwnerTickets_def getTicketMetadata_def Let_def)
qed

theorem ownership_index_consistent_witness:
  "reachable mockVerifier afterTransfer
   \<and> getOwnerTickets bob afterTransfer = [0]
   \<and> getOwnerTickets alice afterTransfer = []
   \<and> getTicketMetadata 0 afterTransfer = (''Concert'', ''Arena'', ''2025-03-15'', bob, True)
   \<and> (0 \<in> set (getOwnerTickets bob afterTransfer))
       = (snd (snd (snd (getTicketMetadata 0 afterTransfer))) = (bob, True))
   \<and> (0 \<in> set (getOwnerTickets alice afterTransfer))
       = (snd (snd (snd (getTicketMetadata 0 afterTransfer))) = (alice, True))"
  using ownership_index_consistent [OF reachable_afterTransfer, of 0 bob]
    ownership_index_consistent [OF reachable_afterTransfer, of 0 alice]
    reachable_afterTransfer
  by (simp add: getOwnerTickets_def getTicketMetadata_def afterTransfer_storage alice_def bob_def Let_def)

text \<open>
  C5: in a reachable state where A owns the ticket, after a successful
  \<^verbatim>\<open>transferTicket(ticketId, B)\<close> by A the array of A no longer holds the id, the array of
  B holds it exactly once, the metadata report owner B, and the count is what it was.
\<close>

theorem transfer_moves_membership:
  assumes "reachable V s"
    and "exists (tickets s ticketId)" and "owner (tickets s ticketId) = A"
    and "exec V A (TransferTicket ticketId B) s = (Inr Done, s')"
  shows "ticketId \<notin> set (getOwnerTickets A s')
       \<and> count_list (getOwnerTickets B s') ticketId = 1
       \<and> snd (snd (snd (getTicketMetadata ticketId s'))) = (B, True)
       \<and> getTicketCount s' = getTicketCount s"
proof -
  from assms(4) have ok: "transferTicket A ticketId B s = Inr s'"
    by (auto split: sum.splits)
  note eff = transferTicket_effect [OF ok]
  have "reachable V (snd (exec V A (TransferTicket ticketId B) s))"
    using assms(1) by (rule reachable_exec)
  then have wf': "wellFormed s'"
    using assms(4) by (simp add: reachable_wellFormed)
  have tk: "exists (tickets s' ticketId)" "owner (tickets s' ticketId) = B"
    using eff(1) by (simp_all add: eff(6))
  have "count (mset (ownerTickets s' A)) ticketId = 0"
    using tk eff(4) by (simp add: wellFormed_count [OF wf'] del: count_eq_zero_iff)
  then have a: "ticketId \<notin> set (ownerTickets s' A)"
    by (simp add: count_eq_zero_iff)
  have "count (mset (ownerTickets s' B)) ticketId = 1"
    using tk by (simp add: wellFormed_count [OF wf'])
  then have b: "count_list (ownerTickets s' B) ticketId = 1"
    by (simp add: count_mset)
  show ?thesis using a b tk
    by (simp add: getOwnerTickets_def getTicketMetadata_def getTicketCount_def eff(5) Let_def)
qed

theorem transfer_moves_membership_witness:
  "reachable mockVerifier afterCreate
   \<and> exists (tickets afterCreate 0) \<and> owner (tickets afterCreate 0) = alice
   \<and> exec mockVerifier alice (TransferTicket 0 bob) afterCreate = (Inr Done, afterTransfer)
   \<and> 0 \<notin> set (getOwnerTickets alice afterTransfer)
   \<and> count_list (getOwnerTickets bob afterTransfer) 0 = 1
   \<and> snd (snd (snd (getTicketMetadata 0 afterTransfer))) = (bob, True)
   \<and> getTicketCount afterTransfer = getTicketCount afterCreate"
proof -
  have ex: "exists (tickets afterCreate 0)" and ow: "owner (tickets afterCreate 0) = alice"
    by (simp_all add: afterCreate_storage)
  have run: "exec mockVerifier alice (TransferTicket 0 bob) afterCreate = (Inr Done, afterTransfer)"
    by (simp add: afterTransfer_def transferTicket_def afterCreate_storage alice_def bob_def)
  show ?thesis
    using transfer_moves_membership [OF reachable_afterCreate ex ow run]
      reachable_afterCreate ex ow run by simp
qed

text \<open>
  C8: for an existing ticket and its owner, in any state, \<^verbatim>\<open>lockTicket\<close> twice in a row
  succeeds both times and the lock handle decrypts to \<^verbatim>\<open>true\<close> after each call; the
  second call changes nothing in storage but the lock handle of that ticket. The same
  holds of \<^verbatim>\<open>unlockTicket\<close> with \<^verbatim>\<open>false\<close>.
\<close>

theorem lock_toggle_idempotent:
  assumes "exists (tickets s ticketId)" and "owner (tickets s ticketId) = sender"
  shows "outcome V sender (LockTicket ticketId) s = Inr Done
       \<and> lockStatus (after V sender (LockTicket ticketId) s) ticketId = Some (PBool True)
       \<and> outcome V sender (LockTicket ticketId) (after V sender (LockTicket ticketId) s) = Inr Done
       \<and> lockStatus (after V sender (LockTicket ticketId) (after V sender (LockTicket ticketId) s))
            ticketId = Some (PBool True)
       \<and> sameButLock ticketId (after V sender (LockTicket ticketId) s)
            (after V sender (LockTicket ticketId) (after V sender (LockTicket ticketId) s))
       \<and> outcome V sender (UnlockTicket ticketId) s = Inr Done
       \<and> lockStatus (after V sender (UnlockTicket ticketId) s) ticketId = Some (PBool False)
       \<and> outcome V sender (UnlockTicket ticketId) (after V sender (UnlockTicket ticketId) s) = Inr Done
       \<and> lockStatus (after V sender (UnlockTicket ticketId) (after V sender (UnlockTicket ticketId) s))
            ticketId = Some (PBool False)
       \<and> sameButLock ticketId (after V sender (UnlockTicket ticketId) s)
            (after V sender (UnlockTicket ticketId) (after V sender (UnlockTicket ticketId) s))"
proof -
  note l1 = lock_step [OF assms, of V]
  note l2 = lock_step [OF l1(3,4), of V]
  note u1 = unlock_step [OF assms, of V]
  note u2 = unlock_step [OF u1(3,4), of V]
  show ?thesis
    using l1(1,2) l2(1,2) u1(1,2) u2(1,2)
    by (simp add: sameButLock_lock sameButLock_unlock)
qed

theorem lock_toggle_idempotent_witness:
  "exists (tickets afterCreate 0) \<and> owner (tickets afterCreate 0) = alice
   \<and> outcome mockVerifier alice (LockTicket 0) afterCreate = Inr Done
   \<and> lockStatus (after mockVerifier alice (LockTicket 0) afterCreate) 0 = Some (PBool True)
   \<and> outcome mockVerifier alice (LockTicket 0) (after mockVerifier alice (LockTicket 0) afterCreate)
       = Inr Done
   \<and> lockStatus (after mockVerifier alice (LockTicket 0)
        (after mockVerifier alice (LockTicket 0) afterCreate)) 0 = Some (PBool True)
   \<and> outcome mockVerifier alice (UnlockTicket 0) (after mockVerifier alice (UnlockTicket 0) afterCreate)
       = Inr Done
   \<and> lockStatus (after mockVerifier alice (UnlockTicket 0)
        (after mockVerifier alice (UnlockTicket 0) afterCreate)) 0 = Some (PBool False)"
proof -
  have ex: "exists (tickets afterCreate 0)" and ow: "owner (tickets afterCreate 0) = alice"
    by (simp_all add: afterCreate_storage)
  show ?thesis
    using lock_toggle_idempotent [OF ex ow, of mockVerifier] ex ow by simp
qed

text \<open>
  C9: from a reachable state, whatever calls follow, an existing ticket keeps existing
  and keeps its seat handle, event name, venue and date. Of storage, \<^verbatim>\<open>lockTicket\<close> and
  \<^verbatim>\<open>unlockTicket\<close> change at most the lock handle of their ticket, and \<^verbatim>\<open>transferTicket\<close>
  at most the owner of its ticket and the arrays of the caller and the new owner.
\<close>

theorem created_fields_immutable:
  assumes "reachable V s" and "exists (tickets s i)" and "run V cs s = (rs, s')"
  shows "exists (tickets s' i)
       \<and> encryptedSeatNumber (tickets s' i) = encryptedSeatNumber (tickets s i)
       \<and> eventName (tickets s' i) = eventName (tickets s i)
       \<and> venue (tickets s' i) = venue (tickets s i)
       \<and> date (tickets s' i) = date (tickets s i)
       \<and> sameButLock j s (after V sender (LockTicket j) s)
       \<and> sameButLock j s (after V sender (UnlockTicket j) s)
       \<and> sameButOwner j sender newOwner s (after V sender (TransferTicket j newOwner) s)"
  using run_fields [OF reachable_wellFormed [OF assms(1)] assms(2,3)]
  by (simp add: sameButLock_lock sameButLock_unlock sameButOwner_transfer)

theorem created_fields_immutable_witness:
  "reachable mockVerifier afterCreate \<and> exists (tickets afterCreate 0)
   \<and> fst (run mockVerifier ownerTrace afterCreate)
       = [Inr Done, Inr Done, Inr Done, Inr (Created 1), Inr (Handle 1)]
   \<and> exists (tickets (snd (run mockVerifier ownerTrace afterCreate)) 0)
   \<and> encryptedSeatNumber (tickets (snd (run mockVerifier ownerTrace afterCreate)) 0) = 1
   \<and> eventName (tickets (snd (run mockVerifier ownerTrace afterCreate)) 0) = ''Concert''
   \<and> venue (tickets (snd (run mockVerifier ownerTrace afterCreate)) 0) = ''Arena''
   \<and> date (tickets (snd (run mockVerifier ownerTrace afterCreate)) 0) = ''2025-03-15''
   \<and> sameButLock 0 afterCreate (after mockVerifier alice (LockTicket 0) afterCreate)
   \<and> sameButLock 0 afterCreate (after mockVerifier alice (UnlockTicket 0) afterCreate)
   \<and> sameButOwner 0 alice bob afterCreate (after mockVerifier alice (TransferTicket 0 bob) afterCreate)"
proof -
  have ex: "exists (tickets afterCreate 0)"
    by (simp add: afterCreate_storage)
  have run: "run mockVerifier ownerTrace afterCreate
          = (fst (run mockVerifier ownerTrace afterCreate), snd (run mockVerifier ownerTrace afterCreate))"
    by simp
  show ?thesis
    using created_fields_immutable [OF reachable_afterCreate ex run, of 0 alice bob]
      reachable_afterCreate ex ownerTrace_outcomes
    by (simp add: afterCreate_storage)
qed

end
